theory Spec2Isabelle
  imports Main
begin

section \<open>Errors\<close>

text \<open>
  The exceptions the modelled code raises or lets through. \<open>RecursionError\<close> is what the
  interpreter raises when nested calls exhaust the call stack.
\<close>

datatype error =
    KeyError
  | ValueError
  | ParserException
  | AttributeError
  | IndexError
  | RecursionError

section \<open>Range engine (parsers/cmap.py)\<close>

text \<open>
  An operand of the range classes is either a Python integer or a \<open>HexString\<close>; every
  method that receives one replaces a \<open>HexString\<close> by its \<open>as_int\<close>.
\<close>

datatype operand = IntVal int | HexString string

text \<open>
  Modelled from the spec: \<open>HexString.as_int\<close> is declared in the types module, which is
  not among the sources. It is the number written by the hexadecimal digits of the
  string (\<open>HexString("FA")\<close> is 250 and \<open>HexString("1e")\<close> is 30 in the doctests of cmap.py).
  The parser builds a \<open>HexString\<close> from hexadecimal digits only.
\<close>

definition hex_digit :: "char \<Rightarrow> int" where
  "hex_digit c =
     (let n = int (of_char c :: nat) in
      if 48 \<le> n \<and> n \<le> 57 then n - 48
      else if 97 \<le> n \<and> n \<le> 102 then n - 87
      else if 65 \<le> n \<and> n \<le> 70 then n - 55
      else 0)"

definition as_int :: "string \<Rightarrow> int" where
  "as_int h = foldl (\<lambda>acc c. 16 * acc + hex_digit c) 0 h"

fun to_int :: "operand \<Rightarrow> int" where
  "to_int (IntVal i) = i"
| "to_int (HexString h) = as_int h"

text \<open>\<open>class Range\<close>: the two attributes \<open>begin\<close> and \<open>end\<close> hold integers after \<open>__init__\<close>.\<close>

record range =
  range_begin :: int
  range_end :: int

definition Range :: "operand \<Rightarrow> operand \<Rightarrow> range" where
  "Range b e = \<lparr>range_begin = to_int b, range_end = to_int e\<rparr>"

text \<open>\<open>Range.__contains__\<close>\<close>

definition contains :: "'a range_scheme \<Rightarrow> operand \<Rightarrow> bool" where
  "contains r item = (let item = to_int item in range_begin r \<le> item \<and> item \<le> range_end r)"

text \<open>\<open>Range.__len__\<close>\<close>

definition len :: "'a range_scheme \<Rightarrow> int" where
  "len r = range_end r - range_begin r + 1"

text \<open>\<open>class MapRange(Range)\<close>\<close>

record map_range = range +
  map_to_start :: int

definition MapRange :: "operand \<Rightarrow> operand \<Rightarrow> operand \<Rightarrow> map_range" where
  "MapRange b e m = \<lparr>range_begin = to_int b, range_end = to_int e, map_to_start = to_int m\<rparr>"

text \<open>
  \<open>MapRange.__getitem__\<close>, on an integer key: the subtraction \<open>item - self.begin\<close> is
  integer arithmetic.
\<close>

definition getitem :: "map_range \<Rightarrow> int \<Rightarrow> error + int" where
  "getitem r item =
     (if \<not> contains r (IntVal item) then Inl KeyError
      else Inr (map_to_start r + (item - range_begin r)))"

text \<open>
  \<open>MapRange.get\<close>: only \<open>KeyError\<close> is caught. The default is \<open>None\<close> unless the caller
  gives one.
\<close>

definition get :: "map_range \<Rightarrow> int \<Rightarrow> int option \<Rightarrow> error + int option" where
  "get r item dflt =
     (case getitem r item of
        Inr res \<Rightarrow> Inr (Some res)
      | Inl KeyError \<Rightarrow> Inr dflt
      | Inl e \<Rightarrow> Inl e)"

text \<open>
  \<open>class CodespaceRanges\<close> and its subclass \<open>MappedCodespaceRanges\<close>: one attribute, the
  list \<open>ranges\<close>, of \<open>Range\<close> objects in the one and of \<open>MapRange\<close> objects in the other.
\<close>

record 'r codespace_ranges =
  ranges :: "'r list"

type_synonym CodespaceRanges = "range codespace_ranges"
type_synonym MappedCodespaceRanges = "map_range codespace_ranges"

definition CodespaceRanges_empty :: "'r codespace_ranges" where
  "CodespaceRanges_empty = \<lparr>ranges = []\<rparr>"

text \<open>\<open>CodespaceRanges.add\<close> and \<open>MappedCodespaceRanges.add\<close>\<close>

definition add :: "CodespaceRanges \<Rightarrow> operand \<Rightarrow> operand \<Rightarrow> CodespaceRanges" where
  "add cr b e = cr\<lparr>ranges := ranges cr @ [Range b e]\<rparr>"

definition add_mapped ::
  "MappedCodespaceRanges \<Rightarrow> operand \<Rightarrow> operand \<Rightarrow> operand \<Rightarrow> MappedCodespaceRanges" where
  "add_mapped cr b e m = cr\<lparr>ranges := ranges cr @ [MapRange b e m]\<rparr>"

text \<open>\<open>CodespaceRanges.__contains__\<close>, inherited by the mapped collection.\<close>

definition contains_ranges :: "('a range_scheme) codespace_ranges \<Rightarrow> operand \<Rightarrow> bool" where
  "contains_ranges cr item =
     (let item = IntVal (to_int item) in list_ex (\<lambda>r. contains r item) (ranges cr))"

text \<open>\<open>CodespaceRanges.merge\<close>: \<open>self.ranges.extend(other.ranges)\<close>.\<close>

definition merge :: "'r codespace_ranges \<Rightarrow> 'r codespace_ranges \<Rightarrow> 'r codespace_ranges" where
  "merge self other = self\<lparr>ranges := ranges self @ ranges other\<rparr>"

text \<open>\<open>MappedCodespaceRanges.__getitem__\<close>: the \<open>for\<close> loop over \<open>self.ranges\<close>.\<close>

fun getitem_loop :: "map_range list \<Rightarrow> int \<Rightarrow> error + int" where
  "getitem_loop [] item = Inl KeyError"
| "getitem_loop (r # rs) item =
     (if contains r (IntVal item) then getitem r item else getitem_loop rs item)"

definition getitem_ranges :: "MappedCodespaceRanges \<Rightarrow> int \<Rightarrow> error + int" where
  "getitem_ranges cr item = getitem_loop (ranges cr) item"

text \<open>\<open>MappedCodespaceRanges.get\<close>\<close>

definition get_ranges :: "MappedCodespaceRanges \<Rightarrow> int \<Rightarrow> int option \<Rightarrow> error + int option" where
  "get_ranges cr item dflt =
     (case getitem_ranges cr item of
        Inr res \<Rightarrow> Inr (Some res)
      | Inl KeyError \<Rightarrow> Inr dflt
      | Inl e \<Rightarrow> Inl e)"

section \<open>Value model\<close>

text \<open>
  The classes of the types module that document.py tells apart with \<open>isinstance\<close>,
  and the atomic values. A dictionary keeps its items in insertion order, with one item per
  key. A stream is a dictionary and the undecoded payload.
\<close>

datatype pdfval =
    Null
  | Boolean bool
  | Integer int
  | Name string
  | PdfString string
  | Array "pdfval list"
  | Dictionary "(string \<times> pdfval) list"
  | Stream "(string \<times> pdfval) list" string
  | IndirectReference nat nat
  | IndirectObject nat nat pdfval

section \<open>Object registry\<close>

text \<open>
  Modelled from the spec: \<open>class Registry\<close> (registry.py is not among the sources). It is a
  memo from (number, generation) to the value of the object, with no deletion;
  \<open>register\<close> stores an indirect object under its key and leaves an entry that is already
  there as it is; \<open>get\<close> fails with a lookup error on an absent key.
\<close>

type_synonym registry = "((nat \<times> nat) \<times> pdfval) list"

definition is_registered :: "registry \<Rightarrow> nat \<Rightarrow> nat \<Rightarrow> bool" where
  "is_registered reg num gen = (map_of reg (num, gen) \<noteq> None)"

definition registry_get :: "registry \<Rightarrow> nat \<Rightarrow> nat \<Rightarrow> error + pdfval" where
  "registry_get reg num gen =
     (case map_of reg (num, gen) of None \<Rightarrow> Inl KeyError | Some val \<Rightarrow> Inr val)"

fun register :: "pdfval \<Rightarrow> registry \<Rightarrow> registry" where
  "register (IndirectObject num gen val) reg =
     (if is_registered reg num gen then reg else reg @ [((num, gen), val)])"
| "register obj reg = reg"

section \<open>The byte source as the parser presents it\<close>

text \<open>
  An entry of a cross-reference section, with the attributes \<open>locate_object\<close> reads:
  \<open>offset\<close> and \<open>generation\<close> of an in-use entry, \<open>number\<close> (of the container object) and
  \<open>generation\<close> of a compressed entry.
\<close>

record xref_entry =
  offset :: nat
  number :: nat
  generation :: nat

record xref =
  in_use :: "(nat \<times> xref_entry) list"
  compressed :: "(nat \<times> xref_entry) list"

text \<open>
  Modelled from the spec: \<open>RegistryPDFParser\<close> (the parsers of the document are not among the
  sources). A successful parse of an indirect object registers the object, and a
  container object registers the objects it holds; a failed parse raises
  \<open>ParserException\<close>. What matters to document.py is which objects a parse at a given
  position hands to the registry:
  \<^item> \<open>objects\<close> gives, for a byte offset, the indirect objects that \<open>reset(offset)\<close> followed by
    \<open>indirect_object()\<close> registers; an offset without an item is one where the parse fails;
  \<^item> \<open>body\<close> lists the body elements that the scan from the header reads one after the other,
    each with the indirect objects it registers (none for a structural keyword); past the
    last one, \<open>body_element()\<close> fails. The saved state of the scan is the index of the next
    element.
  \<open>xrefs\<close> is \<open>trailer.xrefs\<close>, and \<open>obj_factory\<close> the factory of domain objects, which
  belongs to the types module.
\<close>

record source =
  xrefs :: "xref list"
  objects :: "(nat \<times> pdfval list) list"
  body :: "pdfval list list"
  obj_factory :: "pdfval \<Rightarrow> pdfval"

text \<open>
  The mutable part of a \<open>PDFDocument\<close>: the registry and \<open>brute_force_state\<close>.
  \<open>dictionary_writes\<close> is a ghost field: the assignments \<open>obj.dictionary = ...\<close> that
  \<open>build\<close> has executed, oldest first, each with the stream object as it was and the
  dictionary it received.
\<close>

record doc_state =
  registry :: registry
  brute_force_state :: nat
  dictionary_writes :: "(pdfval \<times> (string \<times> pdfval) list) list"

definition register_all :: "pdfval list \<Rightarrow> registry \<Rightarrow> registry" where
  "register_all objs reg = fold register objs reg"

text \<open>\<open>self.parser.reset(offset); self.parser.indirect_object()\<close>; the caller drops the result.\<close>

definition indirect_object :: "source \<Rightarrow> nat \<Rightarrow> doc_state \<Rightarrow> error + doc_state" where
  "indirect_object src off s =
     (case map_of (objects src) off of
        None \<Rightarrow> Inl ParserException
      | Some objs \<Rightarrow> Inr (s\<lparr>registry := register_all objs (registry s)\<rparr>))"

section \<open>Document resolution engine (document.py)\<close>

text \<open>\<open>PDFDocument.next_brute_force_object\<close>: the state is saved only after a successful parse.\<close>

definition next_brute_force_object :: "source \<Rightarrow> doc_state \<Rightarrow> error + doc_state" where
  "next_brute_force_object src s =
     (if brute_force_state s < length (body src)
      then Inr (s\<lparr>registry := register_all (body src ! brute_force_state s) (registry s),
                  brute_force_state := Suc (brute_force_state s)\<rparr>)
      else Inl ParserException)"

text \<open>The \<open>while\<close> loop of \<open>locate_object\<close> (lines 110 to 117).\<close>

function brute_force_loop :: "source \<Rightarrow> nat \<Rightarrow> nat \<Rightarrow> doc_state \<Rightarrow> error + doc_state" where
  "brute_force_loop src num gen s =
     (if \<not> is_registered (registry s) num gen then
        (case next_brute_force_object src s of
           Inr s' \<Rightarrow> brute_force_loop src num gen s'
         | Inl ParserException \<Rightarrow>
             Inr (s\<lparr>registry := register (IndirectObject num gen Null) (registry s)\<rparr>)
         | Inl e \<Rightarrow> Inl e)
      else Inr s)"
  by pat_completeness auto
termination
  by (relation "measure (\<lambda>(src, num, gen, s). length (body src) - brute_force_state s)")
     (auto simp: next_brute_force_object_def split: if_splits)

declare brute_force_loop.simps [simp del]

text \<open>
  The \<open>for\<close> loop of \<open>locate_object\<close> over the cross-reference sections (lines 91 to 108);
  \<open>loc\<close> is the nested call \<open>self.locate_object\<close>.
\<close>

definition try_in_use :: "source \<Rightarrow> nat \<Rightarrow> nat \<Rightarrow> xref \<Rightarrow> doc_state \<Rightarrow> doc_state \<times> bool" where
  "try_in_use src num gen xr s =
     (case map_of (in_use xr) num of
        Some xre \<Rightarrow>
          if generation xre = gen then
            (let s' = (case indirect_object src (offset xre) s of Inr t \<Rightarrow> t | Inl e \<Rightarrow> s)
             in (s', is_registered (registry s') num gen))
          else (s, False)
      | None \<Rightarrow> (s, False))"

fun xref_loop ::
  "(nat \<Rightarrow> nat \<Rightarrow> doc_state \<Rightarrow> error + pdfval \<times> doc_state) \<Rightarrow> source \<Rightarrow> nat \<Rightarrow> nat \<Rightarrow>
     xref list \<Rightarrow> doc_state \<Rightarrow> error + doc_state" where
  "xref_loop loc src num gen [] s = Inr s"
| "xref_loop loc src num gen (xr # rest) s =
     (case try_in_use src num gen xr s of
        (s1, True) \<Rightarrow> Inr s1
      | (s1, False) \<Rightarrow>
          (case map_of (compressed xr) num of
             Some xre \<Rightarrow>
               if generation xre = gen then
                 (case loc (number xre) (generation xre) s1 of
                    Inl e \<Rightarrow> Inl e
                  | Inr (_, s2) \<Rightarrow>
                      if is_registered (registry s2) num gen then Inr s2
                      else xref_loop loc src num gen rest s2)
               else xref_loop loc src num gen rest s1
           | None \<Rightarrow> xref_loop loc src num gen rest s1))"

text \<open>
  \<open>PDFDocument.locate_object\<close>. The first argument after the source is the number of nested
  calls the call stack still has room for.
\<close>

primrec locate_object ::
  "source \<Rightarrow> nat \<Rightarrow> nat \<Rightarrow> nat \<Rightarrow> doc_state \<Rightarrow> error + pdfval \<times> doc_state" where
  "locate_object src 0 num gen s = Inl RecursionError"
| "locate_object src (Suc depth) num gen s =
     (case xref_loop (locate_object src depth) src num gen (xrefs src) s of
        Inl e \<Rightarrow> Inl e
      | Inr s1 \<Rightarrow>
          (case brute_force_loop src num gen s1 of
             Inl e \<Rightarrow> Inl e
           | Inr s2 \<Rightarrow>
               (case registry_get (registry s2) num gen of
                  Inl e \<Rightarrow> Inl e
                | Inr obj \<Rightarrow> Inr (obj, s2))))"

text \<open>
  \<open>PDFDocument.obj_by_ref\<close> reads \<open>objref.num\<close> and \<open>objref.gen\<close>, which references and
  indirect objects have.
\<close>

definition obj_by_ref ::
  "source \<Rightarrow> nat \<Rightarrow> pdfval \<Rightarrow> doc_state \<Rightarrow> error + pdfval \<times> doc_state" where
  "obj_by_ref src depth objref s =
     (case objref of
        IndirectReference num gen \<Rightarrow>
          (case locate_object src depth num gen s of
             Inl e \<Rightarrow> Inl e
           | Inr (obj, s') \<Rightarrow> Inr (obj_factory src obj, s'))
      | IndirectObject num gen val \<Rightarrow>
          (case locate_object src depth num gen s of
             Inl e \<Rightarrow> Inl e
           | Inr (obj, s') \<Rightarrow> Inr (obj_factory src obj, s'))
      | _ \<Rightarrow> Inl AttributeError)"

text \<open>
  \<open>PDFDocument.deep_obj_by_ref\<close>. The loop may run forever (a negative \<open>maxdepth\<close> never
  reaches zero), so it is a partial function: \<open>None\<close> is not returning.
\<close>

fun is_IndirectObject :: "pdfval \<Rightarrow> bool" where
  "is_IndirectObject (IndirectObject num gen val) = True"
| "is_IndirectObject obj = False"

partial_function (option) deep_obj_by_ref_loop ::
  "source \<Rightarrow> nat \<Rightarrow> pdfval \<Rightarrow> int \<Rightarrow> doc_state \<Rightarrow> (error + pdfval \<times> doc_state) option" where
  "deep_obj_by_ref_loop src depth obj counter s =
     (if is_IndirectObject obj \<and> counter \<noteq> 0 then
        (case obj_by_ref src depth obj s of
           Inl e \<Rightarrow> Some (Inl e)
         | Inr (obj', s') \<Rightarrow> deep_obj_by_ref_loop src depth obj' (counter - 1) s')
      else Some (Inr (obj, s)))"

declare deep_obj_by_ref_loop.simps [code]

definition deep_obj_by_ref ::
  "source \<Rightarrow> nat \<Rightarrow> pdfval \<Rightarrow> int \<Rightarrow> doc_state \<Rightarrow> (error + pdfval \<times> doc_state) option" where
  "deep_obj_by_ref src depth obj maxdepth s =
     (case deep_obj_by_ref_loop src depth obj maxdepth s of
        None \<Rightarrow> None
      | Some (Inl e) \<Rightarrow> Some (Inl e)
      | Some (Inr (obj', s')) \<Rightarrow>
          if is_IndirectObject obj' then Some (Inl ValueError) else Some (Inr (obj', s')))"

text \<open>
  \<open>PDFDocument.build\<close>. \<open>visited\<close> is the list object that every nested call shares, so it
  is passed in and returned. The comprehensions over the elements of an array and over the
  items of a dictionary call \<open>self.build\<close> on one element after the other.
\<close>

type_synonym build_result = "error + pdfval \<times> pdfval list \<times> doc_state"

fun build_all ::
  "(pdfval \<Rightarrow> pdfval list \<Rightarrow> doc_state \<Rightarrow> build_result) \<Rightarrow> pdfval list \<Rightarrow> pdfval list \<Rightarrow>
     doc_state \<Rightarrow> error + pdfval list \<times> pdfval list \<times> doc_state" where
  "build_all rec [] visited s = Inr ([], visited, s)"
| "build_all rec (x # xs) visited s =
     (case rec x visited s of
        Inl e \<Rightarrow> Inl e
      | Inr (y, visited1, s1) \<Rightarrow>
          (case build_all rec xs visited1 s1 of
             Inl e \<Rightarrow> Inl e
           | Inr (ys, visited2, s2) \<Rightarrow> Inr (y # ys, visited2, s2)))"

text \<open>
  Lines 56 to 61: a reference that is not in \<open>visited\<close> is appended to it and resolved, and
  \<open>on_return\<close> is set.
\<close>

definition resolve ::
  "source \<Rightarrow> nat \<Rightarrow> pdfval \<Rightarrow> pdfval list \<Rightarrow> doc_state \<Rightarrow>
     error + bool \<times> pdfval \<times> pdfval list \<times> doc_state" where
  "resolve src depth obj visited s =
     (case obj of
        IndirectReference num gen \<Rightarrow>
          if obj \<notin> set visited then
            (case obj_by_ref src depth obj s of
               Inl e \<Rightarrow> Inl e
             | Inr (obj', s') \<Rightarrow> Inr (True, obj', visited @ [obj], s'))
          else Inr (False, obj, visited, s)
      | _ \<Rightarrow> Inr (False, obj, visited, s))"

text \<open>
  Lines 63 to 77; \<open>rec\<close> is the nested call \<open>self.build(o, visited, lazy)\<close>. The stream
  branch assigns to the \<open>dictionary\<close> attribute of the stream object it holds.
\<close>

definition build_children ::
  "(pdfval \<Rightarrow> pdfval list \<Rightarrow> doc_state \<Rightarrow> build_result) \<Rightarrow> source \<Rightarrow> pdfval \<Rightarrow> pdfval list \<Rightarrow>
     bool \<Rightarrow> doc_state \<Rightarrow> build_result" where
  "build_children rec src obj visited lazy s =
     (case obj of
        Array xs \<Rightarrow>
          (case build_all rec xs visited s of
             Inl e \<Rightarrow> Inl e
           | Inr (ys, visited', s') \<Rightarrow> Inr (Array ys, visited', s'))
      | Dictionary items \<Rightarrow>
          if \<not> lazy then
            (case build_all rec (map snd items) visited s of
               Inl e \<Rightarrow> Inl e
             | Inr (ys, visited', s') \<Rightarrow>
                 Inr (obj_factory src (Dictionary (zip (map fst items) ys)), visited', s'))
          else Inr (obj_factory src obj, visited, s)
      | Stream items payload \<Rightarrow>
          if \<not> lazy then
            (case build_all rec (map snd items) visited s of
               Inl e \<Rightarrow> Inl e
             | Inr (ys, visited', s') \<Rightarrow>
                 (let dictionary = zip (map fst items) ys
                  in Inr (obj_factory src (Stream dictionary payload), visited',
                          s'\<lparr>dictionary_writes := dictionary_writes s' @ [(obj, dictionary)]\<rparr>)))
          else Inr (obj_factory src obj, visited, s)
      | IndirectObject num gen val \<Rightarrow> rec val visited s
      | _ \<Rightarrow> Inr (obj, visited, s))"

text \<open>Lines 79 to 81: \<open>visited.pop()\<close> removes the last element and fails on an empty list.\<close>

definition on_return_pop :: "bool \<Rightarrow> pdfval \<Rightarrow> pdfval list \<Rightarrow> doc_state \<Rightarrow> build_result" where
  "on_return_pop on_return obj visited s =
     (if on_return then
        (if visited = [] then Inl IndexError else Inr (obj, butlast visited, s))
      else Inr (obj, visited, s))"

text \<open>
  The first argument after the source is the number of nested calls the call stack still
  has room for; the calls that \<open>build\<close> makes have one less.
\<close>

primrec build ::
  "source \<Rightarrow> nat \<Rightarrow> pdfval \<Rightarrow> pdfval list \<Rightarrow> bool \<Rightarrow> doc_state \<Rightarrow> build_result" where
  "build src 0 obj visited lazy s = Inl RecursionError"
| "build src (Suc depth) obj visited lazy s =
     (case resolve src depth obj visited s of
        Inl e \<Rightarrow> Inl e
      | Inr (on_return, obj1, visited1, s1) \<Rightarrow>
          (case build_children (\<lambda>x v t. build src depth x v lazy t) src obj1 visited1 lazy s1 of
             Inl e \<Rightarrow> Inl e
           | Inr (obj2, visited2, s2) \<Rightarrow> on_return_pop on_return obj2 visited2 s2))"

section \<open>Notions used in the statements\<close>

text \<open>
  Every entry of the registry of \<open>s\<close> is an entry of the registry of \<open>t\<close>, under the same
  key and with the same value.
\<close>

definition registry_kept :: "doc_state \<Rightarrow> doc_state \<Rightarrow> bool" where
  "registry_kept s t = (map_of (registry s) \<subseteq>\<^sub>m map_of (registry t))"

section \<open>Example documents\<close>

text \<open>A document before anything has been located.\<close>

definition s_init :: doc_state where
  "s_init = \<lparr>registry = [], brute_force_state = 0, dictionary_writes = []\<rparr>"

text \<open>
  A source without a cross-reference section whose body is the one object
  \<open>1 0 obj 5 endobj\<close>, and the document once the scan has read it.
\<close>

definition src_five :: source where
  "src_five = \<lparr>xrefs = [], objects = [], body = [[IndirectObject 1 0 (Integer 5)]],
               obj_factory = (\<lambda>obj. obj)\<rparr>"

definition s_five :: doc_state where
  "s_five = \<lparr>registry = [((1, 0), Integer 5)], brute_force_state = 1, dictionary_writes = []\<rparr>"

text \<open>
  A source with an empty body whose only cross-reference section has one compressed
  entry: object 5, stored in the container object 5.
\<close>

definition src_self_container :: source where
  "src_self_container =
     \<lparr>xrefs = [\<lparr>in_use = [], compressed = [(5, \<lparr>offset = 0, number = 5, generation = 0\<rparr>)]\<rparr>],
      objects = [], body = [], obj_factory = (\<lambda>obj. obj)\<rparr>"

section \<open>The range engine\<close>

text \<open>
  C6: for every \<open>Range(a, b)\<close> and every integer \<open>x\<close>, \<open>contains(x)\<close> holds exactly when
  \<open>a \<le> x \<le> b\<close>, and the length is \<open>b - a + 1\<close>; \<open>Range(0, 4)\<close> has length 5, contains 2 and
  contains neither -1 nor 5.
\<close>

theorem Range_contains_len:
  "contains (Range (IntVal a) (IntVal b)) (IntVal x) = (a \<le> x \<and> x \<le> b)
   \<and> len (Range (IntVal a) (IntVal b)) = b - a + 1
   \<and> len (Range (IntVal 0) (IntVal 4)) = 5
   \<and> contains (Range (IntVal 0) (IntVal 4)) (IntVal 2)
   \<and> \<not> contains (Range (IntVal 0) (IntVal 4)) (IntVal (- 1))
   \<and> \<not> contains (Range (IntVal 0) (IntVal 4)) (IntVal 5)"
  by (simp add: contains_def len_def Range_def)

text \<open>
  C7: for every \<open>MapRange(begin, end, destination_start)\<close> and every \<open>x\<close>, the lookup returns
  \<open>destination_start + (x - begin)\<close> when \<open>begin \<le> x \<le> end\<close> and fails with a key error
  otherwise; \<open>get\<close> returns the same mapped value when \<open>x\<close> is contained and the default,
  without failing, otherwise.
\<close>

theorem MapRange_lookup_get:
  "getitem (MapRange (IntVal b) (IntVal e) (IntVal d)) x
     = (if b \<le> x \<and> x \<le> e then Inr (d + (x - b)) else Inl KeyError)
   \<and> get (MapRange (IntVal b) (IntVal e) (IntVal d)) x dflt
     = (if b \<le> x \<and> x \<le> e then Inr (Some (d + (x - b))) else Inr dflt)
   \<and> getitem (MapRange (IntVal 0) (IntVal 4) (IntVal 5)) 0 = Inr 5
   \<and> getitem (MapRange (IntVal 0) (IntVal 4) (IntVal 5)) 4 = Inr 9
   \<and> getitem (MapRange (IntVal 0) (IntVal 4) (IntVal 5)) 5 = Inl KeyError"
  by (simp add: getitem_def get_def contains_def MapRange_def)

lemma getitem_loop_find:
  "getitem_loop rs x =
     (case find (\<lambda>r. contains r (IntVal x)) rs of
        Some r \<Rightarrow> Inr (map_to_start r + (x - range_begin r))
      | None \<Rightarrow> Inl KeyError)"
  by (induction rs) (simp_all add: getitem_def)

text \<open>
  C5: the lookup of a mapped collection returns the mapped value of the first member, in
  insertion order, that contains the key, and fails with a key error when no member does;
  with \<open>[0, 10] \<rightarrow> 100\<close> and \<open>[5, 8] \<rightarrow> 200\<close> added in that order, the lookup of 6 is 106.
\<close>

theorem MappedCodespaceRanges_first_match:
  "getitem_ranges cr x =
     (case find (\<lambda>r. contains r (IntVal x)) (ranges cr) of
        Some r \<Rightarrow> Inr (map_to_start r + (x - range_begin r))
      | None \<Rightarrow> Inl KeyError)
   \<and> getitem_ranges
        (add_mapped (add_mapped CodespaceRanges_empty (IntVal 0) (IntVal 10) (IntVal 100))
           (IntVal 5) (IntVal 8) (IntVal 200)) 6 = Inr 106"
  by (simp add: getitem_ranges_def getitem_loop_find add_mapped_def CodespaceRanges_empty_def
      MapRange_def contains_def)

text \<open>
  C8: merging two collections in either order gives the same membership for every key,
  while the lookup of a mapped collection depends on the order: with \<open>[0, 10] \<rightarrow> 100\<close> and
  \<open>[5, 8] \<rightarrow> 200\<close>, the key 6 maps to 106 when the first is merged with the second and to
  201 the other way round.
\<close>

theorem merge_membership_commutes:
  "contains_ranges (merge A B) x = contains_ranges (merge B A) x
   \<and> getitem_ranges
        (merge (add_mapped CodespaceRanges_empty (IntVal 0) (IntVal 10) (IntVal 100))
               (add_mapped CodespaceRanges_empty (IntVal 5) (IntVal 8) (IntVal 200))) 6 = Inr 106
   \<and> getitem_ranges
        (merge (add_mapped CodespaceRanges_empty (IntVal 5) (IntVal 8) (IntVal 200))
               (add_mapped CodespaceRanges_empty (IntVal 0) (IntVal 10) (IntVal 100))) 6 = Inr 201"
  by (auto simp add: contains_ranges_def merge_def list_ex_iff getitem_ranges_def
      add_mapped_def CodespaceRanges_empty_def MapRange_def contains_def getitem_def)

section \<open>The resolution engine\<close>

text \<open>
  C3: \<open>deep_obj_by_ref\<close> is claimed to resolve while the value is an indirect reference.
  The loop tests for an indirect object instead, so a reference is returned as it is,
  whatever \<open>maxdepth\<close> is and whatever the reference points to: no hop is made and no
  depth error is raised. In the example, \<open>obj_by_ref\<close> resolves the reference to 5.
\<close>

theorem deep_obj_by_ref_reference_unresolved:
  "deep_obj_by_ref src depth (IndirectReference num gen) maxdepth s
     = Some (Inr (IndirectReference num gen, s))
   \<and> obj_by_ref src_five 1 (IndirectReference 1 0) s_init = Inr (Integer 5, s_five)
   \<and> deep_obj_by_ref src_five 1 (IndirectReference 1 0) 100 s_init
       = Some (Inr (IndirectReference 1 0, s_init))"
proof -
  have "deep_obj_by_ref src' depth' (IndirectReference num' gen') maxdepth' s'
     = Some (Inr (IndirectReference num' gen', s'))" for src' depth' num' gen' maxdepth' s'
    unfolding deep_obj_by_ref_def
    by (subst deep_obj_by_ref_loop.simps) simp
  moreover have "obj_by_ref src_five 1 (IndirectReference 1 0) s_init = Inr (Integer 5, s_five)"
    by code_simp
  ultimately show ?thesis by simp
qed

text \<open>
  C9: \<open>build\<close> is claimed to leave the stream it is given unchanged. With \<open>lazy\<close> false, the
  stream branch assigns the built mapping to the \<open>dictionary\<close> attribute of that stream:
  the stream with the dictionary \<open>A \<mapsto> 1 0 R\<close> receives the dictionary \<open>A \<mapsto> 5\<close>.
\<close>

theorem build_stream_assigns_dictionary:
  "build src_five 3 (Stream [(''A'', IndirectReference 1 0)] ''xyz'') [] False s_init
     = Inr (Stream [(''A'', Integer 5)] ''xyz'', [],
            s_five\<lparr>dictionary_writes :=
                     [(Stream [(''A'', IndirectReference 1 0)] ''xyz'', [(''A'', Integer 5)])]\<rparr>)"
  by code_simp

text \<open>
  C2: \<open>locate_object\<close> is claimed to return null, without raising, for every object that is
  nowhere in the source. Object 5 is nowhere in \<open>src_self_container\<close>, whose cross-reference
  section names object 5 as its own container: \<open>locate_object\<close> calls itself with the same
  arguments before anything is registered, and no call stack is deep enough.
\<close>

theorem locate_object_self_container_recursion:
  "locate_object src_self_container depth 5 0 s_init = Inl RecursionError"
proof (induction depth)
  case 0
  show ?case by simp
next
  case (Suc depth)
  then show ?case
    by (simp add: src_self_container_def try_in_use_def)
qed

subsection \<open>The visited list\<close>

lemma build_all_visited:
  assumes rec: "\<forall>x v t y v' t'. rec x v t = Inr (y, v', t') \<longrightarrow> v' = v"
  shows "build_all rec xs visited s = Inr (ys, visited', s') \<Longrightarrow> visited' = visited"
proof (induction xs arbitrary: visited s ys)
  case Nil
  then show ?case by simp
next
  case (Cons x xs)
  from Cons.prems obtain y v1 s1 ys1 where
    h: "rec x visited s = Inr (y, v1, s1)" and t: "build_all rec xs v1 s1 = Inr (ys1, visited', s')"
    by (auto split: sum.splits)
  from rec h have "v1 = visited" by blast
  with Cons.IH [OF t] show ?case by simp
qed

lemma build_children_visited:
  assumes rec: "\<forall>x v t y v' t'. rec x v t = Inr (y, v', t') \<longrightarrow> v' = v"
    and h: "build_children rec src obj visited lazy s = Inr (res, visited', s')"
  shows "visited' = visited"
proof (cases obj)
  case (Array xs)
  with h obtain ys where "build_all rec xs visited s = Inr (ys, visited', s')"
    by (auto simp: build_children_def split: sum.splits)
  with rec show ?thesis by (rule build_all_visited)
next
  case (Dictionary items)
  show ?thesis
  proof (cases lazy)
    case True
    with h Dictionary show ?thesis by (simp add: build_children_def)
  next
    case False
    with h Dictionary obtain ys where
      "build_all rec (map snd items) visited s = Inr (ys, visited', s')"
      by (auto simp: build_children_def split: sum.splits)
    with rec show ?thesis by (rule build_all_visited)
  qed
next
  case (Stream items payload)
  show ?thesis
  proof (cases lazy)
    case True
    with h Stream show ?thesis by (simp add: build_children_def)
  next
    case False
    with h Stream obtain ys t where
      "build_all rec (map snd items) visited s = Inr (ys, visited', t)"
      by (auto simp: build_children_def Let_def split: sum.splits)
    with rec show ?thesis by (rule build_all_visited)
  qed
next
  case (IndirectObject num gen val)
  with h have "rec val visited s = Inr (res, visited', s')"
    by (simp add: build_children_def)
  with rec show ?thesis by blast
qed (use h in \<open>simp_all add: build_children_def\<close>)

lemma resolve_visited:
  "resolve src depth obj visited s = Inr (on_return, obj1, visited1, s1) \<Longrightarrow>
     (on_return \<and> visited1 = visited @ [obj]) \<or> (\<not> on_return \<and> visited1 = visited)"
  unfolding resolve_def by (cases obj) (auto split: sum.splits if_splits)

text \<open>
  C10: on every normal return of \<open>build\<close> the list \<open>visited\<close> is as it was at the call: a
  reference that was appended has been popped, and the nested calls have restored the
  list before that.
\<close>

theorem build_visited_unchanged:
  "build src depth obj visited lazy s = Inr (res, visited', s') \<Longrightarrow> visited' = visited"
proof (induction depth arbitrary: obj visited s res visited' s')
  case 0
  then show ?case by simp
next
  case (Suc depth)
  from Suc.prems obtain on_return obj1 visited1 s1 obj2 visited2 s2 where
    r: "resolve src depth obj visited s = Inr (on_return, obj1, visited1, s1)" and
    c: "build_children (\<lambda>x v t. build src depth x v lazy t) src obj1 visited1 lazy s1
          = Inr (obj2, visited2, s2)" and
    p: "on_return_pop on_return obj2 visited2 s2 = Inr (res, visited', s')"
    by (auto split: sum.splits)
  have "\<forall>x v t y v' t'. build src depth x v lazy t = Inr (y, v', t') \<longrightarrow> v' = v"
    using Suc.IH by blast
  then have "visited2 = visited1"
    using c by (rule build_children_visited)
  with resolve_visited [OF r] p show ?case
    by (auto simp: on_return_pop_def split: if_splits)
qed

text \<open>The reference \<open>1 0 R\<close> built while \<open>9 0 R\<close> is being visited.\<close>

theorem build_visited_unchanged_witness:
  "build src_five 2 (IndirectReference 1 0) [IndirectReference 9 0] False s_init
     = Inr (Integer 5, [IndirectReference 9 0], s_five)
   \<and> [IndirectReference 9 0] = [IndirectReference 9 0]"
proof -
  have h: "build src_five 2 (IndirectReference 1 0) [IndirectReference 9 0] False s_init
          = Inr (Integer 5, [IndirectReference 9 0], s_five)"
    by code_simp
  from build_visited_unchanged [OF h] h show ?thesis by simp
qed

subsection \<open>Locating an object twice\<close>

lemma registry_kept_refl [simp]: "registry_kept s s"
  by (simp add: registry_kept_def)

lemma registry_kept_trans: "registry_kept s t \<Longrightarrow> registry_kept t u \<Longrightarrow> registry_kept s u"
  unfolding registry_kept_def by (rule map_le_trans)

lemma register_le: "map_of reg \<subseteq>\<^sub>m map_of (register obj reg)"
proof (cases obj)
  case (IndirectObject num gen val)
  show ?thesis
  proof (cases "is_registered reg num gen")
    case True
    with IndirectObject show ?thesis by simp
  next
    case False
    then have "map_of reg (num, gen) = None" by (simp add: is_registered_def)
    with IndirectObject False show ?thesis
      by (auto simp: map_le_def map_add_def dom_def split: option.splits)
  qed
qed simp_all

lemma register_all_le: "map_of reg \<subseteq>\<^sub>m map_of (register_all objs reg)"
  unfolding register_all_def
proof (induction objs arbitrary: reg)
  case Nil
  show ?case by simp
next
  case (Cons obj objs)
  have "map_of reg \<subseteq>\<^sub>m map_of (register obj reg)" by (rule register_le)
  also have "\<dots> \<subseteq>\<^sub>m map_of (fold register objs (register obj reg))" by (rule Cons.IH)
  finally show ?case by simp
qed

lemma indirect_object_kept: "indirect_object src off s = Inr t \<Longrightarrow> registry_kept s t"
  by (auto simp: indirect_object_def registry_kept_def register_all_le split: option.splits)

lemma next_brute_force_object_kept:
  "next_brute_force_object src s = Inr t \<Longrightarrow> registry_kept s t"
  by (auto simp: next_brute_force_object_def registry_kept_def register_all_le split: if_splits)

lemma brute_force_loop_kept:
  "brute_force_loop src num gen s = Inr t \<Longrightarrow> registry_kept s t"
proof (induction src num gen s rule: brute_force_loop.induct)
  case (1 src num gen s)
  show ?case
  proof (cases "is_registered (registry s) num gen")
    case True
    with "1.prems" show ?thesis by (simp add: brute_force_loop.simps)
  next
    case False
    show ?thesis
    proof (cases "next_brute_force_object src s")
      case (Inr s')
      with False "1.prems" have "brute_force_loop src num gen s' = Inr t"
        by (simp add: brute_force_loop.simps)
      with "1.IH" False Inr have "registry_kept s' t" by simp
      with next_brute_force_object_kept [OF Inr] show ?thesis
        by (blast intro: registry_kept_trans)
    next
      case (Inl e)
      with False "1.prems" show ?thesis
        by (cases e) (auto simp: brute_force_loop.simps registry_kept_def register_le)
    qed
  qed
qed

lemma brute_force_loop_registered:
  "brute_force_loop src num gen s = Inr t \<Longrightarrow> is_registered (registry t) num gen"
proof (induction src num gen s rule: brute_force_loop.induct)
  case (1 src num gen s)
  show ?case
  proof (cases "is_registered (registry s) num gen")
    case True
    with "1.prems" show ?thesis by (simp add: brute_force_loop.simps)
  next
    case False
    show ?thesis
    proof (cases "next_brute_force_object src s")
      case (Inr s')
      with False "1.prems" have "brute_force_loop src num gen s' = Inr t"
        by (simp add: brute_force_loop.simps)
      with "1.IH" False Inr show ?thesis by simp
    next
      case (Inl e)
      with False "1.prems" show ?thesis
        by (cases e) (auto simp: brute_force_loop.simps is_registered_def map_add_def)
    qed
  qed
qed

lemma try_in_use_kept: "try_in_use src num gen xr s = (t, b) \<Longrightarrow> registry_kept s t"
  by (auto simp: try_in_use_def Let_def indirect_object_kept split: option.splits if_splits sum.splits)

lemma try_in_use_flag:
  "try_in_use src num gen xr s = (t, b) \<Longrightarrow> b \<Longrightarrow> is_registered (registry t) num gen"
  by (auto simp: try_in_use_def Let_def split: option.splits if_splits)

lemma xref_loop_kept:
  assumes loc: "\<forall>n g s v t. loc n g s = Inr (v, t) \<longrightarrow> registry_kept s t"
  shows "xref_loop loc src num gen xrs s = Inr t \<Longrightarrow> registry_kept s t"
proof (induction xrs arbitrary: s)
  case Nil
  then show ?case by simp
next
  case (Cons xr rest)
  obtain s1 b where tiu: "try_in_use src num gen xr s = (s1, b)" by (cases "try_in_use src num gen xr s")
  note k1 = try_in_use_kept [OF tiu]
  show ?case
  proof (cases b)
    case True
    with Cons.prems tiu k1 show ?thesis by simp
  next
    case False
    show ?thesis
    proof (cases "\<exists>xre. map_of (compressed xr) num = Some xre \<and> generation xre = gen")
      case True
      then obtain xre where x: "map_of (compressed xr) num = Some xre" "generation xre = gen" by blast
      with Cons.prems tiu False obtain v s2 where
        l: "loc (number xre) (generation xre) s1 = Inr (v, s2)"
        by (auto split: sum.splits)
      from loc l have k2: "registry_kept s1 s2" by blast
      show ?thesis
      proof (cases "is_registered (registry s2) num gen")
        case True
        with Cons.prems tiu False x l have "t = s2" by simp
        with k1 k2 show ?thesis by (blast intro: registry_kept_trans)
      next
        case nr: False
        with Cons.prems tiu False x l have "xref_loop loc src num gen rest s2 = Inr t" by simp
        from Cons.IH [OF this] k1 k2 show ?thesis by (blast intro: registry_kept_trans)
      qed
    next
      case nc: False
      with Cons.prems tiu False have "xref_loop loc src num gen rest s1 = Inr t"
        by (auto split: option.splits if_splits)
      from Cons.IH [OF this] k1 show ?thesis by (blast intro: registry_kept_trans)
    qed
  qed
qed

lemma locate_object_kept:
  "locate_object src depth num gen s = Inr (obj, t) \<Longrightarrow> registry_kept s t"
proof (induction depth arbitrary: num gen s obj t)
  case 0
  then show ?case by simp
next
  case (Suc depth)
  from Suc.prems obtain s1 where
    x: "xref_loop (locate_object src depth) src num gen (xrefs src) s = Inr s1" and
    b: "brute_force_loop src num gen s1 = Inr t"
    by (auto split: sum.splits)
  have "\<forall>n g s v t. locate_object src depth n g s = Inr (v, t) \<longrightarrow> registry_kept s t"
    using Suc.IH by blast
  from xref_loop_kept [OF this x] brute_force_loop_kept [OF b] show ?case
    by (rule registry_kept_trans)
qed

lemma locate_object_result:
  "locate_object src depth num gen s = Inr (obj, t) \<Longrightarrow> map_of (registry t) (num, gen) = Some obj"
  by (cases depth) (auto simp: registry_get_def split: sum.splits option.splits)


lemma registry_kept_lookup:
  "registry_kept s t \<Longrightarrow> map_of (registry s) k = Some v \<Longrightarrow> map_of (registry t) k = Some v"
  unfolding registry_kept_def map_le_def by (metis domI)

lemma registry_kept_registered:
  "registry_kept s t \<Longrightarrow> is_registered (registry s) num gen \<Longrightarrow> is_registered (registry t) num gen"
  unfolding is_registered_def by (auto dest: registry_kept_lookup)

lemma try_in_use_no_match:
  "\<not> (\<exists>xre. map_of (in_use xr) num = Some xre \<and> generation xre = gen) \<Longrightarrow>
     try_in_use src num gen xr s = (s, False)"
  by (auto simp: try_in_use_def split: option.splits)

lemma try_in_use_match:
  "map_of (in_use xr) num = Some xre \<Longrightarrow> generation xre = gen \<Longrightarrow>
     try_in_use src num gen xr s = (t, b) \<Longrightarrow> b = is_registered (registry t) num gen"
  by (auto simp: try_in_use_def Let_def)

lemma xref_loop_again:
  assumes loc: "\<forall>n g s v s1 t. loc n g s = Inr (v, s1) \<and> registry_kept s1 t \<longrightarrow>
                  (\<exists>t'. loc n g t = Inr (v, t') \<and> registry_kept t t')"
    and lock: "\<forall>n g s v t. loc n g s = Inr (v, t) \<longrightarrow> registry_kept s t"
  shows "xref_loop loc src num gen xrs s = Inr s_end \<Longrightarrow> registry_kept s_end t \<Longrightarrow>
           is_registered (registry t) num gen \<Longrightarrow>
           \<exists>t'. xref_loop loc src num gen xrs t = Inr t' \<and> registry_kept t t'"
proof (induction xrs arbitrary: s)
  case Nil
  then show ?case by simp
next
  case (Cons xr rest)
  show ?case
  proof (cases "\<exists>xre. map_of (in_use xr) num = Some xre \<and> generation xre = gen")
    case True
    then obtain xre where m: "map_of (in_use xr) num = Some xre" "generation xre = gen" by blast
    obtain t1 b where tiu: "try_in_use src num gen xr t = (t1, b)"
      by (cases "try_in_use src num gen xr t")
    from try_in_use_kept [OF tiu] have k: "registry_kept t t1" .
    from k Cons.prems(3) have "is_registered (registry t1) num gen"
      by (rule registry_kept_registered)
    with try_in_use_match [OF m tiu] have b by simp
    with tiu k show ?thesis by simp
  next
    case False
    note ts = try_in_use_no_match [OF False, of src s] and tt = try_in_use_no_match [OF False, of src t]
    show ?thesis
    proof (cases "\<exists>xre. map_of (compressed xr) num = Some xre \<and> generation xre = gen")
      case True
      then obtain xre where x: "map_of (compressed xr) num = Some xre" "generation xre = gen" by blast
      with Cons.prems(1) ts obtain v s2 where
        l: "loc (number xre) (generation xre) s = Inr (v, s2)"
        by (auto split: sum.splits)
      have "registry_kept s2 s_end"
      proof (cases "is_registered (registry s2) num gen")
        case True
        with Cons.prems(1) ts x l show ?thesis by simp
      next
        case nr: False
        with Cons.prems(1) ts x l have "xref_loop loc src num gen rest s2 = Inr s_end" by simp
        with lock show ?thesis by (rule xref_loop_kept)
      qed
      then have "registry_kept s2 t" using Cons.prems(2) by (rule registry_kept_trans)
      with loc l obtain t2 where
        l2: "loc (number xre) (generation xre) t = Inr (v, t2)" and k2: "registry_kept t t2"
        by blast
      from k2 Cons.prems(3) have "is_registered (registry t2) num gen"
        by (rule registry_kept_registered)
      with tt x l2 k2 show ?thesis by simp
    next
      case nc: False
      with Cons.prems(1) ts have "xref_loop loc src num gen rest s = Inr s_end"
        by (auto split: option.splits if_splits)
      from Cons.IH [OF this Cons.prems(2,3)] obtain t' where
        "xref_loop loc src num gen rest t = Inr t'" "registry_kept t t'" by blast
      with tt nc show ?thesis by (auto split: option.splits)
    qed
  qed
qed

lemma locate_object_again:
  "locate_object src depth num gen s = Inr (obj, s1) \<Longrightarrow> registry_kept s1 t \<Longrightarrow>
     \<exists>t'. locate_object src depth num gen t = Inr (obj, t') \<and> registry_kept t t'"
proof (induction depth arbitrary: num gen s obj s1 t)
  case 0
  then show ?case by simp
next
  case (Suc depth)
  from Suc.prems(1) obtain sx where
    x: "xref_loop (locate_object src depth) src num gen (xrefs src) s = Inr sx" and
    b: "brute_force_loop src num gen sx = Inr s1"
    by (auto split: sum.splits)
  from locate_object_result [OF Suc.prems(1)] Suc.prems(2)
  have r: "map_of (registry t) (num, gen) = Some obj" by (auto dest: registry_kept_lookup)
  have ih1: "\<forall>n g s v s1 t. locate_object src depth n g s = Inr (v, s1) \<and> registry_kept s1 t \<longrightarrow>
                  (\<exists>t'. locate_object src depth n g t = Inr (v, t') \<and> registry_kept t t')"
    using Suc.IH by blast
  have ih2: "\<forall>n g s v t. locate_object src depth n g s = Inr (v, t) \<longrightarrow> registry_kept s t"
    by (blast intro: locate_object_kept)
  from brute_force_loop_kept [OF b] Suc.prems(2) have "registry_kept sx t"
    by (rule registry_kept_trans)
  moreover from r have "is_registered (registry t) num gen" by (simp add: is_registered_def)
  ultimately obtain t' where
    x': "xref_loop (locate_object src depth) src num gen (xrefs src) t = Inr t'" and
    k': "registry_kept t t'"
    using xref_loop_again [OF ih1 ih2 x] by blast
  from k' r have r': "map_of (registry t') (num, gen) = Some obj" by (rule registry_kept_lookup)
  then have "brute_force_loop src num gen t' = Inr t'"
    by (simp add: brute_force_loop.simps is_registered_def)
  with x' r' k' show ?case by (simp add: registry_get_def)
qed

text \<open>
  C4: when \<open>locate_object\<close> has returned an object for a key, a second call for the same
  key returns the same object; a call of \<open>locate_object\<close> keeps every entry of the registry
  as it is; and registering an object under a key that is already registered leaves the
  registry as it is.
\<close>

theorem locate_object_idempotent:
  "(locate_object src depth num gen s = Inr (obj, s1) \<longrightarrow>
      (\<exists>s2. locate_object src depth num gen s1 = Inr (obj, s2) \<and> registry_kept s1 s2))
   \<and> (locate_object src depth num gen s = Inr (obj, s1) \<longrightarrow> registry_kept s s1)
   \<and> (is_registered reg num gen \<longrightarrow> register (IndirectObject num gen val) reg = reg)"
  using locate_object_again [of src depth num gen s obj s1 s1] locate_object_kept [of src depth num gen s obj s1]
  by simp

text \<open>Object 1 of \<open>src_five\<close>, located twice.\<close>

theorem locate_object_idempotent_witness:
  "locate_object src_five 1 1 0 s_init = Inr (Integer 5, s_five)
   \<and> (\<exists>s2. locate_object src_five 1 1 0 s_five = Inr (Integer 5, s2) \<and> registry_kept s_five s2)
   \<and> registry_kept s_init s_five
   \<and> is_registered (registry s_five) 1 0
   \<and> register (IndirectObject 1 0 Null) (registry s_five) = registry s_five"
proof -
  have h: "locate_object src_five 1 1 0 s_init = Inr (Integer 5, s_five)"
    by code_simp
  have r: "is_registered (registry s_five) 1 0"
    by code_simp
  from locate_object_idempotent [of src_five 1 1 0 s_init "Integer 5" s_five "registry s_five" Null]
    h r show ?thesis by simp
qed

end
